theory Spec2Isabelle
  imports Complex_Main "HOL-Library.Word"
begin

section \<open>Data model of \<^verbatim>\<open>main.go\<close>\<close>

text \<open>
  The decoded JSON of one page of the feed. \<^verbatim>\<open>int64\<close> is a 64-bit word read as
  two's complement (\<open>sint\<close>); \<^verbatim>\<open>float64\<close> dimensions are carried as reals and never
  read by the program; Go's \<^verbatim>\<open>int\<close> (status, limit, offset) is an unbounded integer:
  the only arithmetic on it is \<^verbatim>\<open>offset += limit\<close>.
\<close>

type_synonym int64 = "64 word"

record AltSize =
  Width :: real
  Height :: real
  Url :: string

record TumblrResponsePhoto =
  AltSizes :: "AltSize list"

record Post =
  Id :: int64
  Photos :: "TumblrResponsePhoto list"

record MetaT =
  Status :: int
  Msg :: string

record ResponseT =
  Posts :: "Post list"

record TumblrResponse =
  Meta :: MetaT
  Response :: ResponseT

record Agent =
  lastId :: int64
  Hostname :: string
  ApiKey :: string

text \<open>
  A Go \<^verbatim>\<open>error\<close> value: one made from a message (\<^verbatim>\<open>errors.New\<close>, and the errors of
  the URL parser, the HTTP client and the JSON decoder), or an \<^verbatim>\<open>*os.PathError\<close>
  with its operation, path and errno (the errnos that opening and writing a file report,
  with their messages on Linux).
\<close>

datatype Errno = EEXIST | ENOENT | EACCES | ENOSPC | EROFS

record PathError =
  Op :: string
  Path :: string
  Err :: Errno

datatype error = errorString string | PathErr PathError

section \<open>The agent\<close>

definition Reset :: "Agent \<Rightarrow> Agent" where
  "Reset a = a\<lparr>lastId := 0\<rparr>"

text \<open>
  \<^verbatim>\<open>Agent.Fetch\<close> builds the request URL from the hostname, the API key, the limit and
  the offset, performs the GET and decodes the body. That part is the parameter \<open>api\<close>:
  what the remote side answers to such a request, an error (URL parse, transport, JSON)
  or a decoded body. \<open>Fetch\<close> itself adds the check of the embedded status.
\<close>

type_synonym api = "string \<Rightarrow> string \<Rightarrow> int \<Rightarrow> int \<Rightarrow> error + TumblrResponse"

definition Fetch :: "api \<Rightarrow> Agent \<Rightarrow> int \<Rightarrow> int \<Rightarrow> error + TumblrResponse" where
  "Fetch api a limit offset =
     (case api (Hostname a) (ApiKey a) limit offset of
        Inl err \<Rightarrow> Inl err
      | Inr jsonResp \<Rightarrow>
          if Status (Meta jsonResp) \<noteq> 200
          then Inl (errorString (''tumblr error: '' @ Msg (Meta jsonResp)))
          else Inr jsonResp)"

text \<open>
  How a loop body leaves: it runs on (\<open>Next\<close>), it leaves the outer loop
  (\<^verbatim>\<open>break OUTER\<close>), or the index \<^verbatim>\<open>photo.AltSizes[0]\<close> is out of range and the
  goroutine panics.
\<close>

datatype flow = Next | BreakOuter | IndexPanic

text \<open>
  \<^verbatim>\<open>for _, photo := range post.Photos { q <- photo.AltSizes[0].Url }\<close>: the URLs sent
  on the queue, in order, and how the loop left.
\<close>

fun send_photos :: "TumblrResponsePhoto list \<Rightarrow> string list \<times> flow" where
  "send_photos [] = ([], Next)"
| "send_photos (photo # rest) =
     (case AltSizes photo of
        [] \<Rightarrow> ([], IndexPanic)
      | alt # _ \<Rightarrow> (case send_photos rest of (urls, f) \<Rightarrow> (Url alt # urls, f)))"

text \<open>\<^verbatim>\<open>for _, post := range resp.Response.Posts { ... }\<close> under the watermark \<open>W\<close>.\<close>

fun range_posts :: "int64 \<Rightarrow> Post list \<Rightarrow> string list \<times> flow" where
  "range_posts W [] = ([], Next)"
| "range_posts W (post # rest) =
     (if W = Id post then ([], BreakOuter)
      else if sint W > sint (Id post) then ([], BreakOuter)
      else (case send_photos (Photos post) of
              (urls, Next) \<Rightarrow> (case range_posts W rest of (later, f) \<Rightarrow> (urls @ later, f))
            | (urls, f) \<Rightarrow> (urls, f)))"

text \<open>
  What one run of the \<^verbatim>\<open>OUTER\<close> loop did: the URLs sent on the queue, the
  (limit, offset) of every \<open>Fetch\<close> call, the local \<^verbatim>\<open>lastId\<close> at the end, and how the
  loop was left.
\<close>

datatype loop_exit = Break | ReturnErr error | Panic

record loop_trace =
  sent :: "string list"
  fetched :: "(int \<times> int) list"
  seen :: int64
  left :: loop_exit

definition after_page :: "string list \<Rightarrow> int \<times> int \<Rightarrow> loop_trace \<Rightarrow> loop_trace" where
  "after_page urls req tr = tr\<lparr>sent := urls @ sent tr, fetched := req # fetched tr\<rparr>"

text \<open>
  The \<^verbatim>\<open>OUTER: for { ... }\<close> loop of \<^verbatim>\<open>Agent.Run\<close>. It has no bound of its own: a
  remote side that keeps answering with new posts keeps it running, which is the value
  \<open>None\<close>.
\<close>

partial_function (option) Run_loop ::
  "api \<Rightarrow> Agent \<Rightarrow> int \<Rightarrow> int \<Rightarrow> int64 \<Rightarrow> loop_trace option" where
  "Run_loop api a limit offset lastId' =
     (case Fetch api a limit offset of
        Inl err \<Rightarrow>
          Some \<lparr>sent = [], fetched = [(limit, offset)], seen = lastId', left = ReturnErr err\<rparr>
      | Inr resp \<Rightarrow>
          if length (Posts (Response resp)) < 1
          then Some \<lparr>sent = [], fetched = [(limit, offset)], seen = lastId', left = Break\<rparr>
          else
            let lastId'' = (if lastId' = 0 then Id (Posts (Response resp) ! 0) else lastId')
            in if lastId a = 0
               then Some \<lparr>sent = [], fetched = [(limit, offset)], seen = lastId'', left = Break\<rparr>
               else (case range_posts (lastId a) (Posts (Response resp)) of
                       (urls, Next) \<Rightarrow>
                         Option.bind (Run_loop api a limit (offset + limit) lastId'')
                           (\<lambda>tr. Some (after_page urls (limit, offset) tr))
                     | (urls, BreakOuter) \<Rightarrow>
                         Some \<lparr>sent = urls, fetched = [(limit, offset)], seen = lastId'',
                               left = Break\<rparr>
                     | (urls, IndexPanic) \<Rightarrow>
                         Some \<lparr>sent = urls, fetched = [(limit, offset)], seen = lastId'',
                               left = Panic\<rparr>))"

declare Run_loop.simps [code]

text \<open>
  \<^verbatim>\<open>Agent.Run\<close>: the loop, then the update of the agent's \<^verbatim>\<open>lastId\<close>. The outcome is
  the agent afterwards, the URLs sent on the queue, the requests made, and the returned
  error (\<open>None\<close> is \<^verbatim>\<open>nil\<close>) or the panic. The calls of \<^verbatim>\<open>a.Log\<close> are left out.
\<close>

datatype run_exit = Returned "error option" | Panicked

record run_outcome =
  agent :: Agent
  enqueued :: "string list"
  requests :: "(int \<times> int) list"
  result :: run_exit

definition Run :: "api \<Rightarrow> Agent \<Rightarrow> run_outcome option" where
  "Run api a =
     Option.bind (Run_loop api a 20 0 0) (\<lambda>tr.
       Some (case left tr of
               ReturnErr err \<Rightarrow>
                 \<lparr>agent = a, enqueued = sent tr, requests = fetched tr,
                  result = Returned (Some err)\<rparr>
             | Panic \<Rightarrow>
                 \<lparr>agent = a, enqueued = sent tr, requests = fetched tr, result = Panicked\<rparr>
             | Break \<Rightarrow>
                 \<lparr>agent = (if seen tr \<noteq> 0 \<and> lastId a \<noteq> seen tr
                            then a\<lparr>lastId := seen tr\<rparr> else a),
                  enqueued = sent tr, requests = fetched tr, result = Returned None\<rparr>))"

text \<open>
  The goroutine that \<^verbatim>\<open>main\<close> starts for one agent at every tick of the timer:
  \<^verbatim>\<open>if err := agent.Run(saver.queue); err != nil { agent.Reset() }\<close>.
\<close>

definition tick :: "api \<Rightarrow> Agent \<Rightarrow> run_outcome option" where
  "tick api a =
     Option.bind (Run api a) (\<lambda>r.
       Some (case result r of
               Returned (Some err) \<Rightarrow> r\<lparr>agent := Reset (agent r)\<rparr>
             | _ \<Rightarrow> r))"

section \<open>The saver\<close>

record Saver =
  Dir :: string

type_synonym bytes = "8 word list"

datatype node = RegularFile bytes | Directory

type_synonym filesystem = "string \<rightharpoonup> node"

text \<open>\<^verbatim>\<open>syscall.Errno.Error()\<close>.\<close>

fun Errno_Error :: "Errno \<Rightarrow> string" where
  "Errno_Error EEXIST = ''file exists''"
| "Errno_Error ENOENT = ''no such file or directory''"
| "Errno_Error EACCES = ''permission denied''"
| "Errno_Error ENOSPC = ''no space left on device''"
| "Errno_Error EROFS = ''read-only file system''"

text \<open>
  What the outside does during one call of \<^verbatim>\<open>Save\<close>: the answer to the GET (an error,
  or a body that delivers its bytes and then ends or fails), whether creating a file
  that does not exist fails, and after how many bytes writing it fails.
\<close>

record http_Response =
  Body :: bytes
  ReadErr :: "error option"

datatype fault = NoDirectory | NoPermission | NoSpace | ReadOnly

fun fault_errno :: "fault \<Rightarrow> Errno" where
  "fault_errno NoDirectory = ENOENT"
| "fault_errno NoPermission = EACCES"
| "fault_errno NoSpace = ENOSPC"
| "fault_errno ReadOnly = EROFS"

record world =
  http_Get :: "string \<Rightarrow> error + http_Response"
  create_fault :: "string \<Rightarrow> fault option"
  write_fault :: "string \<Rightarrow> (nat \<times> fault) option"

text \<open>\<^verbatim>\<open>strings.Split(s, sep)\<close> for a separator of one byte.\<close>

fun strings_Split :: "string \<Rightarrow> char \<Rightarrow> string list" where
  "strings_Split [] sep = [[]]"
| "strings_Split (c # cs) sep =
     (if c = sep then [] # strings_Split cs sep
      else (case strings_Split cs sep of
              [] \<Rightarrow> [[c]]
            | w # ws \<Rightarrow> (c # w) # ws))"

fun strings_Join :: "string list \<Rightarrow> string \<Rightarrow> string" where
  "strings_Join [] sep = []"
| "strings_Join [e] sep = e"
| "strings_Join (e # es) sep = e @ sep @ strings_Join es sep"

text \<open>
  \<^verbatim>\<open>filepath.Clean\<close> and \<^verbatim>\<open>filepath.Join\<close> (of two elements) on Unix, element by
  element: empty and \<^verbatim>\<open>.\<close> elements are dropped, \<^verbatim>\<open>..\<close> removes the element before
  it, is dropped at the root, and is kept at the start of a relative path.
\<close>

fun clean_elems :: "bool \<Rightarrow> string list \<Rightarrow> string list \<Rightarrow> string list" where
  "clean_elems rooted out [] = rev out"
| "clean_elems rooted out (e # es) =
     (if e = [] \<or> e = ''.'' then clean_elems rooted out es
      else if e = ''..'' then
        (case out of
           [] \<Rightarrow> if rooted then clean_elems rooted [] es else clean_elems rooted [''..''] es
         | prev # below \<Rightarrow>
             if prev = ''..'' then clean_elems rooted (''..'' # out) es
             else clean_elems rooted below es)
      else clean_elems rooted (e # out) es)"

definition filepath_Clean :: "string \<Rightarrow> string" where
  "filepath_Clean path =
     (case path of
        [] \<Rightarrow> ''.''
      | c # _ \<Rightarrow>
          let rooted = (c = CHR ''/'');
              out = clean_elems rooted [] (strings_Split path (CHR ''/''))
          in if rooted then ''/'' @ strings_Join out ''/''
             else if out = [] then ''.''
             else strings_Join out ''/'')"

definition filepath_Join :: "string \<Rightarrow> string \<Rightarrow> string" where
  "filepath_Join d f =
     (if d \<noteq> [] then filepath_Clean (d @ ''/'' @ f)
      else if f \<noteq> [] then filepath_Clean f
      else [])"

text \<open>
  \<^verbatim>\<open>os.OpenFile(name, os.O_WRONLY|os.O_CREATE|os.O_EXCL, 0666)\<close>: it fails with
  \<^verbatim>\<open>EEXIST\<close> when the name exists, and creates an empty file otherwise, unless the
  outside makes the creation fail.
\<close>

definition os_OpenFile_excl :: "world \<Rightarrow> filesystem \<Rightarrow> string \<Rightarrow> PathError + filesystem" where
  "os_OpenFile_excl w fs name =
     (case fs name of
        Some _ \<Rightarrow> Inl \<lparr>Op = ''open'', Path = name, Err = EEXIST\<rparr>
      | None \<Rightarrow>
          (case create_fault w name of
             Some f \<Rightarrow> Inl \<lparr>Op = ''open'', Path = name, Err = fault_errno f\<rparr>
           | None \<Rightarrow> Inr (fs(name \<mapsto> RegularFile []))))"

text \<open>
  \<^verbatim>\<open>io.Copy(file, resp.Body)\<close>: the bytes that reached the file and the error, if any.
  A write that fails leaves a prefix of the body in the file.
\<close>

definition io_Copy :: "world \<Rightarrow> string \<Rightarrow> http_Response \<Rightarrow> bytes \<times> error option" where
  "io_Copy w name resp =
     (case write_fault w name of
        None \<Rightarrow> (Body resp, ReadErr resp)
      | Some (n, f) \<Rightarrow>
          if n < length (Body resp)
          then (take n (Body resp),
                Some (PathErr \<lparr>Op = ''write'', Path = name, Err = fault_errno f\<rparr>))
          else (Body resp, ReadErr resp))"

text \<open>
  \<^verbatim>\<open>Saver.Save\<close>: the file system afterwards, the URLs it sent a GET for, and the
  returned error (\<open>None\<close> is \<^verbatim>\<open>nil\<close>). \<open>fileName\<close> is the name it derives from the URL.
\<close>

record save_outcome =
  files :: filesystem
  gets :: "string list"
  returned :: "error option"

definition fileName :: "Saver \<Rightarrow> string \<Rightarrow> string" where
  "fileName s url =
     (let splited = strings_Split url (CHR ''/'')
      in filepath_Join (Dir s) (splited ! (length splited - 1)))"

definition Save :: "world \<Rightarrow> Saver \<Rightarrow> filesystem \<Rightarrow> string \<Rightarrow> save_outcome" where
  "Save w s fs url =
     (case http_Get w url of
        Inl err \<Rightarrow> \<lparr>files = fs, gets = [url], returned = Some err\<rparr>
      | Inr resp \<Rightarrow>
          (case os_OpenFile_excl w fs (fileName s url) of
             Inl err \<Rightarrow>
               if Errno_Error (Err err) = ''file exists''
               then \<lparr>files = fs, gets = [url], returned = None\<rparr>
               else \<lparr>files = fs, gets = [url], returned = Some (PathErr err)\<rparr>
           | Inr fs' \<Rightarrow>
               (case io_Copy w (fileName s url) resp of
                  (written, err) \<Rightarrow>
                    \<lparr>files = fs'(fileName s url \<mapsto> RegularFile written), gets = [url],
                     returned = err\<rparr>)))"

text \<open>
  A sequence of \<^verbatim>\<open>Save\<close> calls, one after the other, each with what the outside does
  during it.
\<close>

fun Saves :: "Saver \<Rightarrow> (world \<times> string) list \<Rightarrow> filesystem \<Rightarrow> filesystem" where
  "Saves s [] fs = fs"
| "Saves s ((w, url) # calls) fs = Saves s calls (files (Save w s fs url))"

section \<open>Notions of the specification\<close>

text \<open>
  The watermark of a feed is the agent's \<^verbatim>\<open>lastId\<close>; it is absent when it is 0, the
  value \<open>Reset\<close> writes and the loop tests. A post is newer than the watermark \<open>W\<close>
  when its identifier is strictly greater, as signed 64-bit integers.
\<close>

definition newer :: "int64 \<Rightarrow> Post \<Rightarrow> bool" where
  "newer W p = (sint W < sint (Id p))"

text \<open>
  The canonical URL of a photo is the URL of its first variant: none for a photo without
  variants. The canonical URLs of a list of posts, in post order and photo order; the
  posts of a list of pages, in page order.
\<close>

definition canonical_url :: "TumblrResponsePhoto \<Rightarrow> string list" where
  "canonical_url photo = map Url (take 1 (AltSizes photo))"

definition photo_urls :: "Post list \<Rightarrow> string list" where
  "photo_urls ps = concat (map (\<lambda>p. concat (map canonical_url (Photos p))) ps)"

definition feed_posts :: "TumblrResponse list \<Rightarrow> Post list" where
  "feed_posts pages = concat (map (\<lambda>pg. Posts (Response pg)) pages)"

text \<open>
  The requests of a scan that fetches \<open>n\<close> pages from an offset on, and the pages made of
  new posts only.
\<close>

definition requests_from :: "int \<Rightarrow> int \<Rightarrow> nat \<Rightarrow> (int \<times> int) list" where
  "requests_from limit off n = map (\<lambda>k. (limit, off + limit * int k)) [0..<n]"

definition all_newer :: "int64 \<Rightarrow> TumblrResponse \<Rightarrow> bool" where
  "all_newer W pg = list_all (newer W) (Posts (Response pg))"

text \<open>The local \<^verbatim>\<open>lastId\<close> of \<^verbatim>\<open>Run\<close> after the pages, each one not empty.\<close>

fun first_seen :: "int64 \<Rightarrow> TumblrResponse list \<Rightarrow> int64" where
  "first_seen l [] = l"
| "first_seen l (pg # pgs) =
     first_seen (if l = 0 then Id (hd (Posts (Response pg))) else l) pgs"

text \<open>The final path segment of a URL: what follows its last \<^verbatim>\<open>/\<close>.\<close>

definition final_segment :: "string \<Rightarrow> string" where
  "final_segment url = rev (takeWhile (\<lambda>c. c \<noteq> CHR ''/'') (rev url))"

section \<open>Example inputs\<close>

text \<open>
  A feed of two pages (posts 110, 108 and 106, 105, 103), feeds that fail, an empty feed
  and a page with a photo without variants.
\<close>

definition photo :: "string \<Rightarrow> TumblrResponsePhoto" where
  "photo u = \<lparr>AltSizes = [\<lparr>Width = 1280, Height = 960, Url = u\<rparr>,
                         \<lparr>Width = 500, Height = 375, Url = u @ ''?small''\<rparr>]\<rparr>"

definition page :: "Post list \<Rightarrow> TumblrResponse" where
  "page ps = \<lparr>Meta = \<lparr>Status = 200, Msg = ''OK''\<rparr>, Response = \<lparr>Posts = ps\<rparr>\<rparr>"

definition agent_at :: "int64 \<Rightarrow> Agent" where
  "agent_at W = \<lparr>lastId = W, Hostname = ''blog.example'', ApiKey = ''key''\<rparr>"

definition page_one :: TumblrResponse where
  "page_one = page [\<lparr>Id = 110, Photos = [photo ''https://img.example/a/110a.jpg'',
                                            photo ''https://img.example/a/110b.jpg'']\<rparr>,
                    \<lparr>Id = 108, Photos = [photo ''https://img.example/a/108.jpg'']\<rparr>]"

definition page_two :: TumblrResponse where
  "page_two = page [\<lparr>Id = 106, Photos = [photo ''https://img.example/a/106.jpg'']\<rparr>,
                    \<lparr>Id = 105, Photos = [photo ''https://img.example/a/105.jpg'']\<rparr>,
                    \<lparr>Id = 103, Photos = [photo ''https://img.example/a/103.jpg'']\<rparr>]"

definition feed_two_pages :: api where
  "feed_two_pages h k limit offset =
     (if offset = 0 then Inr page_one else if offset = 20 then Inr page_two else Inr (page []))"

definition feed_breaks :: api where
  "feed_breaks h k limit offset =
     (if offset = 0 then Inr page_one else Inl (errorString ''timeout''))"

definition feed_down :: api where
  "feed_down h k limit offset = Inl (errorString ''connection refused'')"

definition feed_empty :: api where
  "feed_empty h k limit offset = Inr (page [])"

definition page_malformed :: TumblrResponse where
  "page_malformed = page [\<lparr>Id = 110, Photos = [photo ''https://img.example/a/110a.jpg'',
                                                  \<lparr>AltSizes = []\<rparr>,
                                                  photo ''https://img.example/a/110c.jpg'']\<rparr>]"

definition feed_malformed :: api where
  "feed_malformed h k limit offset = (if offset = 0 then Inr page_malformed else Inr (page []))"

text \<open>
  A saver on \<^verbatim>\<open>/out\<close>, an empty directory and one that holds \<^verbatim>\<open>abc.jpg\<close>, an
  outside where every GET succeeds and one where only one URL can be fetched.
\<close>

definition saver_out :: Saver where
  "saver_out = \<lparr>Dir = ''/out''\<rparr>"

definition photo_bytes :: bytes where
  "photo_bytes = [255, 216, 255, 224]"

definition no_files :: filesystem where
  "no_files = Map.empty"

definition one_file :: filesystem where
  "one_file = no_files(''/out/abc.jpg'' \<mapsto> RegularFile [71, 73, 70])"

definition world_up :: world where
  "world_up = \<lparr>http_Get = (\<lambda>url. Inr \<lparr>Body = photo_bytes, ReadErr = None\<rparr>),
               create_fault = (\<lambda>name. None), write_fault = (\<lambda>name. None)\<rparr>"

definition world_one_host :: world where
  "world_one_host =
     \<lparr>http_Get = (\<lambda>url. if url = ''https://img.example/a/abc.jpg''
                         then Inr \<lparr>Body = photo_bytes, ReadErr = None\<rparr>
                         else Inl (errorString ''no such host'')),
      create_fault = (\<lambda>name. None), write_fault = (\<lambda>name. None)\<rparr>"

lemmas demo_defs = photo_def page_def agent_at_def page_one_def page_two_def feed_two_pages_def
  feed_breaks_def feed_down_def feed_empty_def page_malformed_def feed_malformed_def

lemmas saver_demo_defs = saver_out_def photo_bytes_def no_files_def one_file_def world_up_def
  world_one_host_def

section \<open>The loops of the agent\<close>


lemma not_stop_iff: "(W \<noteq> Id p \<and> \<not> sint W > sint (Id p)) = newer W p"
proof -
  have "(W = Id p) = (sint W = sint (Id p))" by (rule word_eq_iff_signed)
  then show ?thesis unfolding newer_def by auto
qed

lemma send_photos_ok:
  "\<forall>ph\<in>set phs. AltSizes ph \<noteq> [] \<Longrightarrow> send_photos phs = (concat (map canonical_url phs), Next)"
  by (induction phs) (auto simp: canonical_url_def split: list.splits)

lemma range_posts_new:
  "\<forall>p\<in>set ps. newer W p \<and> (\<forall>ph\<in>set (Photos p). AltSizes ph \<noteq> []) \<Longrightarrow>
   range_posts W ps = (photo_urls ps, Next)"
proof (induction ps)
  case Nil
  then show ?case by (simp add: photo_urls_def)
next
  case (Cons p ps)
  then have n: "W \<noteq> Id p" "\<not> sint W > sint (Id p)"
    using not_stop_iff [of W p] by auto
  from Cons.prems have s: "send_photos (Photos p) = (concat (map canonical_url (Photos p)), Next)"
    by (simp add: send_photos_ok)
  from Cons have "range_posts W ps = (photo_urls ps, Next)" by simp
  with n s show ?case by (simp add: photo_urls_def)
qed

lemma range_posts_stop:
  assumes "\<forall>p\<in>set pre. newer W p \<and> (\<forall>ph\<in>set (Photos p). AltSizes ph \<noteq> [])"
    and "\<not> newer W q"
  shows "range_posts W (pre @ q # suf) = (photo_urls pre, BreakOuter)"
  using assms
proof (induction pre)
  case Nil
  then show ?case using not_stop_iff [of W q] by (auto simp: photo_urls_def)
next
  case (Cons p ps)
  then have n: "W \<noteq> Id p" "\<not> sint W > sint (Id p)"
    using not_stop_iff [of W p] by auto
  from Cons.prems have s: "send_photos (Photos p) = (concat (map canonical_url (Photos p)), Next)"
    by (simp add: send_photos_ok)
  from Cons have "range_posts W (ps @ q # suf) = (photo_urls ps, BreakOuter)" by simp
  with n s show ?case by (simp add: photo_urls_def)
qed

lemma Run_loop_error:
  "Fetch api a limit off = Inl err \<Longrightarrow>
   Run_loop api a limit off l =
     Some \<lparr>sent = [], fetched = [(limit, off)], seen = l, left = ReturnErr err\<rparr>"
  by (subst Run_loop.simps) simp

lemma Run_loop_empty_page:
  "Fetch api a limit off = Inr e \<Longrightarrow> Posts (Response e) = [] \<Longrightarrow>
   Run_loop api a limit off l =
     Some \<lparr>sent = [], fetched = [(limit, off)], seen = l, left = Break\<rparr>"
  by (subst Run_loop.simps) simp

lemma Run_loop_bootstrap:
  "lastId a = 0 \<Longrightarrow> Fetch api a limit off = Inr pg \<Longrightarrow> Posts (Response pg) \<noteq> [] \<Longrightarrow>
   Run_loop api a limit off l =
     Some \<lparr>sent = [], fetched = [(limit, off)],
           seen = (if l = 0 then Id (hd (Posts (Response pg))) else l), left = Break\<rparr>"
  by (subst Run_loop.simps) (simp add: hd_conv_nth)

lemma Run_loop_stop_page:
  assumes "lastId a \<noteq> 0" and "Fetch api a limit off = Inr pg"
    and "Posts (Response pg) = pre @ q # suf"
    and "\<forall>p\<in>set pre. newer (lastId a) p \<and> (\<forall>ph\<in>set (Photos p). AltSizes ph \<noteq> [])"
    and "\<not> newer (lastId a) q"
  shows "Run_loop api a limit off l =
     Some \<lparr>sent = photo_urls pre, fetched = [(limit, off)],
           seen = (if l = 0 then Id (hd (Posts (Response pg))) else l), left = Break\<rparr>"
proof -
  have r: "range_posts (lastId a) (Posts (Response pg)) = (photo_urls pre, BreakOuter)"
    using assms(3-5) by (simp add: range_posts_stop)
  have ne: "Posts (Response pg) \<noteq> []" using assms(3) by simp
  show ?thesis
    by (subst Run_loop.simps) (use assms(1,2) r ne in \<open>simp add: hd_conv_nth\<close>)
qed

lemma Run_loop_new_page:
  assumes "lastId a \<noteq> 0" and "Fetch api a limit off = Inr pg"
    and "Posts (Response pg) \<noteq> []"
    and "\<forall>p\<in>set (Posts (Response pg)). newer (lastId a) p \<and> (\<forall>ph\<in>set (Photos p). AltSizes ph \<noteq> [])"
  shows "Run_loop api a limit off l =
     Option.bind (Run_loop api a limit (off + limit) (if l = 0 then Id (hd (Posts (Response pg))) else l))
       (\<lambda>tr. Some (after_page (photo_urls (Posts (Response pg))) (limit, off) tr))"
proof -
  have r: "range_posts (lastId a) (Posts (Response pg)) = (photo_urls (Posts (Response pg)), Next)"
    using assms(4) by (rule range_posts_new)
  show ?thesis
    by (subst Run_loop.simps) (use assms(1-3) r in \<open>simp add: hd_conv_nth\<close>)
qed

lemma requests_from_Suc:
  "requests_from limit off (Suc n) = (limit, off) # requests_from limit (off + limit) n"
proof -
  have "[0..<Suc n] = 0 # map Suc [0..<n]"
    by (simp add: upt_conv_Cons map_Suc_upt del: upt_Suc)
  then show ?thesis
    by (simp add: requests_from_def o_def algebra_simps del: upt_Suc)
qed

lemma Run_loop_new_pages:
  assumes "lastId a \<noteq> 0"
    and "\<forall>k<length pages. Fetch api a limit (off + limit * int k) = Inr (pages ! k)"
    and "\<forall>pg\<in>set pages. Posts (Response pg) \<noteq> [] \<and>
           (\<forall>p\<in>set (Posts (Response pg)). newer (lastId a) p \<and> (\<forall>ph\<in>set (Photos p). AltSizes ph \<noteq> []))"
  shows "Run_loop api a limit off l =
     Option.bind (Run_loop api a limit (off + limit * int (length pages)) (first_seen l pages))
       (\<lambda>tr. Some (tr\<lparr>sent := photo_urls (feed_posts pages) @ sent tr,
                     fetched := requests_from limit off (length pages) @ fetched tr\<rparr>))"
  using assms(2,3)
proof (induction pages arbitrary: off l)
  case Nil
  then show ?case by (simp add: feed_posts_def photo_urls_def requests_from_def)
next
  case (Cons pg pgs)
  let ?l = "if l = 0 then Id (hd (Posts (Response pg))) else l"
  from Cons.prems(1) have f0: "Fetch api a limit off = Inr pg" by fastforce
  have step: "Run_loop api a limit off l =
     Option.bind (Run_loop api a limit (off + limit) ?l)
       (\<lambda>tr. Some (after_page (photo_urls (Posts (Response pg))) (limit, off) tr))"
    using assms(1) f0 Cons.prems(2) by (intro Run_loop_new_page) auto
  have served: "\<forall>k<length pgs. Fetch api a limit ((off + limit) + limit * int k) = Inr (pgs ! k)"
  proof (intro allI impI)
    fix k assume "k < length pgs"
    then have "Fetch api a limit (off + limit * int (Suc k)) = Inr ((pg # pgs) ! Suc k)"
      using Cons.prems(1) by (metis Suc_less_eq length_Cons)
    then show "Fetch api a limit ((off + limit) + limit * int k) = Inr (pgs ! k)"
      by (simp add: algebra_simps)
  qed
  have ih: "Run_loop api a limit (off + limit) ?l =
     Option.bind (Run_loop api a limit ((off + limit) + limit * int (length pgs)) (first_seen ?l pgs))
       (\<lambda>tr. Some (tr\<lparr>sent := photo_urls (feed_posts pgs) @ sent tr,
                     fetched := requests_from limit (off + limit) (length pgs) @ fetched tr\<rparr>))"
    using served Cons.prems(2) by (intro Cons.IH) auto
  have off: "(off + limit) + limit * int (length pgs) = off + limit * int (length (pg # pgs))"
    by (simp add: algebra_simps)
  have urls: "photo_urls (feed_posts (pg # pgs)) = photo_urls (Posts (Response pg)) @ photo_urls (feed_posts pgs)"
    by (simp add: feed_posts_def photo_urls_def)
  show ?case
    unfolding step ih off urls
    by (cases "Run_loop api a limit (off + limit * int (length (pg # pgs))) (first_seen ?l pgs)")
       (simp_all add: after_page_def requests_from_Suc)
qed

lemma requests_from_snoc:
  "requests_from limit off (Suc n) = requests_from limit off n @ [(limit, off + limit * int n)]"
  by (simp add: requests_from_def)

lemma filter_newer_takeWhile:
  "sorted_wrt (\<lambda>p q. sint (Id q) < sint (Id p)) ps \<Longrightarrow>
   filter (newer W) ps = takeWhile (newer W) ps"
proof (induction ps)
  case Nil
  then show ?case by simp
next
  case (Cons p ps)
  show ?case
  proof (cases "newer W p")
    case True
    with Cons show ?thesis by simp
  next
    case False
    then have "\<forall>q\<in>set ps. \<not> newer W q"
      using Cons.prems by (fastforce simp: newer_def)
    then have "filter (newer W) ps = []" by (simp add: filter_empty_conv)
    with False show ?thesis by simp
  qed
qed

lemma feed_posts_append: "feed_posts (xs @ ys) = feed_posts xs @ feed_posts ys"
  by (simp add: feed_posts_def)

lemma feed_posts_all_newer:
  "\<forall>pg\<in>set pages. all_newer W pg \<Longrightarrow> \<forall>p\<in>set (feed_posts pages). newer W p"
  by (auto simp: feed_posts_def all_newer_def list_all_iff)

lemma Run_loop_scan:
  assumes present: "lastId a \<noteq> 0"
    and served: "\<forall>k<length pages. Fetch api a limit (off + limit * int k) = Inr (pages ! k)"
    and nonempty: "\<forall>pg\<in>set pages. Posts (Response pg) \<noteq> []"
    and ends: "(\<forall>p\<in>set (feed_posts pages). newer (lastId a) p) \<longrightarrow>
         (\<exists>e. Fetch api a limit (off + limit * int (length pages)) = Inr e \<and> Posts (Response e) = [])"
    and variants: "\<forall>p\<in>set (feed_posts pages). newer (lastId a) p \<longrightarrow>
         (\<forall>ph\<in>set (Photos p). AltSizes ph \<noteq> [])"
  shows "\<exists>s. Run_loop api a limit off l =
     Some \<lparr>sent = photo_urls (takeWhile (newer (lastId a)) (feed_posts pages)),
           fetched = requests_from limit off (Suc (length (takeWhile (all_newer (lastId a)) pages))),
           seen = s, left = Break\<rparr>"
proof -
  let ?W = "lastId a"
  let ?before = "takeWhile (all_newer ?W) pages"
  let ?rest = "dropWhile (all_newer ?W) pages"
  have split: "pages = ?before @ ?rest" by simp
  have before_new: "\<forall>pg\<in>set ?before. all_newer ?W pg"
    by (auto dest: set_takeWhileD)
  then have posts_new: "\<forall>p\<in>set (feed_posts ?before). newer ?W p"
    by (rule feed_posts_all_newer)
  have sub: "set ?before \<subseteq> set pages" by (auto dest: set_takeWhileD)
  have served_before:
    "\<forall>k<length ?before. Fetch api a limit (off + limit * int k) = Inr (?before ! k)"
  proof (intro allI impI)
    fix k assume k: "k < length ?before"
    then have "k < length pages" using length_takeWhile_le [of "all_newer ?W" pages] by simp
    with served have "Fetch api a limit (off + limit * int k) = Inr (pages ! k)" by simp
    with k show "Fetch api a limit (off + limit * int k) = Inr (?before ! k)"
      by (simp add: takeWhile_nth)
  qed
  have good_before: "\<forall>pg\<in>set ?before. Posts (Response pg) \<noteq> [] \<and>
      (\<forall>p\<in>set (Posts (Response pg)). newer ?W p \<and> (\<forall>ph\<in>set (Photos p). AltSizes ph \<noteq> []))"
  proof (intro ballI conjI)
    fix pg assume pg: "pg \<in> set ?before"
    with sub nonempty show "Posts (Response pg) \<noteq> []" by auto
    fix p assume p: "p \<in> set (Posts (Response pg))"
    with pg before_new show n: "newer ?W p" by (auto simp: all_newer_def list_all_iff)
    from pg p sub have "p \<in> set (feed_posts pages)" by (auto simp: feed_posts_def)
    with variants n have "\<forall>ph\<in>set (Photos p). AltSizes ph \<noteq> []" by simp
    then show "\<And>ph. ph \<in> set (Photos p) \<Longrightarrow> AltSizes ph \<noteq> []" by simp
  qed
  have A: "Run_loop api a limit off l =
     Option.bind (Run_loop api a limit (off + limit * int (length ?before)) (first_seen l ?before))
       (\<lambda>tr. Some (tr\<lparr>sent := photo_urls (feed_posts ?before) @ sent tr,
                     fetched := requests_from limit off (length ?before) @ fetched tr\<rparr>))"
    using present served_before good_before by (rule Run_loop_new_pages)
  show ?thesis
  proof (cases ?rest)
    case Nil
    then have all: "?before = pages" using split by simp
    with posts_new have "\<forall>p\<in>set (feed_posts pages). newer ?W p" by simp
    with ends obtain e where e: "Fetch api a limit (off + limit * int (length pages)) = Inr e"
      "Posts (Response e) = []" by auto
    have tw: "takeWhile (newer ?W) (feed_posts pages) = feed_posts pages"
      using \<open>\<forall>p\<in>set (feed_posts pages). newer ?W p\<close> by simp
    show ?thesis
      unfolding A all tw
      by (simp add: Run_loop_empty_page [OF e] requests_from_snoc)
  next
    case (Cons pg rest')
    then have pg_old: "\<not> all_newer ?W pg"
      using hd_dropWhile [of "all_newer ?W" pages] by auto
    let ?posts = "Posts (Response pg)"
    let ?pre = "takeWhile (newer ?W) ?posts"
    from pg_old have "dropWhile (newer ?W) ?posts \<noteq> []"
      by (auto simp: all_newer_def list_all_iff)
    then obtain q suf where qs: "dropWhile (newer ?W) ?posts = q # suf"
      by (cases "dropWhile (newer ?W) ?posts") auto
    then have q_old: "\<not> newer ?W q"
      using hd_dropWhile [of "newer ?W" ?posts] by auto
    have shape: "?posts = ?pre @ q # suf"
      using takeWhile_dropWhile_id [of "newer ?W" ?posts] qs by simp
    have pg_at: "pages ! length ?before = pg"
      using split Cons by (metis nth_append_length)
    have "length pages = length ?before + length ?rest"
      by (metis split length_append)
    with Cons have lt: "length ?before < length pages" by simp
    from served lt pg_at
    have f: "Fetch api a limit (off + limit * int (length ?before)) = Inr pg" by auto
    have pg_in: "pg \<in> set pages" using lt pg_at nth_mem by blast
    have pre_good: "\<forall>p\<in>set ?pre. newer ?W p \<and> (\<forall>ph\<in>set (Photos p). AltSizes ph \<noteq> [])"
    proof (intro ballI conjI)
      fix p assume p: "p \<in> set ?pre"
      then show n: "newer ?W p" by (auto dest: set_takeWhileD)
      from p have "p \<in> set ?posts" by (auto dest: set_takeWhileD)
      with pg_in have "p \<in> set (feed_posts pages)" by (auto simp: feed_posts_def)
      with variants n have "\<forall>ph\<in>set (Photos p). AltSizes ph \<noteq> []" by simp
      then show "\<And>ph. ph \<in> set (Photos p) \<Longrightarrow> AltSizes ph \<noteq> []" by simp
    qed
    have B: "Run_loop api a limit (off + limit * int (length ?before)) (first_seen l ?before) =
       Some \<lparr>sent = photo_urls ?pre, fetched = [(limit, off + limit * int (length ?before))],
             seen = (if first_seen l ?before = 0 then Id (hd ?posts) else first_seen l ?before),
             left = Break\<rparr>"
      using present f shape pre_good q_old by (rule Run_loop_stop_page)
    have "feed_posts pages = feed_posts ?before @ (?pre @ q # suf) @ feed_posts rest'"
      using split Cons shape by (metis feed_posts_append feed_posts_def append_Cons append_Nil concat.simps(2) list.simps(9))
    then have tw: "takeWhile (newer ?W) (feed_posts pages) = feed_posts ?before @ ?pre"
      using posts_new q_old by (simp add: takeWhile_append2 takeWhile_tail)
    have urls: "photo_urls (feed_posts ?before @ ?pre) = photo_urls (feed_posts ?before) @ photo_urls ?pre"
      by (simp add: photo_urls_def)
    show ?thesis
      unfolding A B tw urls by (simp add: requests_from_snoc)
  qed
qed

section \<open>The scan\<close>

lemma Run_of_Break:
  "Run_loop api a 20 0 0 = Some \<lparr>sent = us, fetched = rs, seen = s, left = Break\<rparr> \<Longrightarrow>
   Run api a = Some \<lparr>agent = (if s \<noteq> 0 \<and> lastId a \<noteq> s then a\<lparr>lastId := s\<rparr> else a),
                     enqueued = us, requests = rs, result = Returned None\<rparr>"
  by (simp add: Run_def)

text \<open>
  C1. With a present watermark \<open>W\<close> and pages whose post identifiers strictly decrease
  within and across pages, the scan returns \<^verbatim>\<open>nil\<close> after it has sent exactly the
  canonical photo URLs of the posts with identifier greater than \<open>W\<close>, in post order and
  photo order; these posts are the ones before the first post at or below \<open>W\<close>, and the
  last page requested is the one with that post (or the empty page that ends the feed).
  The pages are the answers to the requests at offsets 0, 20, 40, ...; each photo of a new
  post has a variant, as the data model requires.
\<close>

theorem Run_incremental:
  assumes present: "lastId a \<noteq> 0"
    and served: "\<forall>k<length pages. Fetch api a 20 (20 * int k) = Inr (pages ! k)"
    and nonempty: "\<forall>pg\<in>set pages. Posts (Response pg) \<noteq> []"
    and ends: "(\<forall>p\<in>set (feed_posts pages). newer (lastId a) p) \<longrightarrow>
         (\<exists>e. Fetch api a 20 (20 * int (length pages)) = Inr e \<and> Posts (Response e) = [])"
    and decreasing: "sorted_wrt (\<lambda>p q. sint (Id q) < sint (Id p)) (feed_posts pages)"
    and variants: "\<forall>p\<in>set (feed_posts pages). newer (lastId a) p \<longrightarrow>
         (\<forall>ph\<in>set (Photos p). AltSizes ph \<noteq> [])"
  shows "\<exists>r. Run api a = Some r \<and> result r = Returned None
     \<and> enqueued r = photo_urls (filter (newer (lastId a)) (feed_posts pages))
     \<and> filter (newer (lastId a)) (feed_posts pages) = takeWhile (newer (lastId a)) (feed_posts pages)
     \<and> requests r = requests_from 20 0 (Suc (length (takeWhile (all_newer (lastId a)) pages)))"
proof -
  have fw: "filter (newer (lastId a)) (feed_posts pages) = takeWhile (newer (lastId a)) (feed_posts pages)"
    using decreasing by (rule filter_newer_takeWhile)
  from served have served': "\<forall>k<length pages. Fetch api a 20 (0 + 20 * int k) = Inr (pages ! k)"
    by simp
  from ends have ends': "(\<forall>p\<in>set (feed_posts pages). newer (lastId a) p) \<longrightarrow>
         (\<exists>e. Fetch api a 20 (0 + 20 * int (length pages)) = Inr e \<and> Posts (Response e) = [])"
    by simp
  from Run_loop_scan [OF present served' nonempty ends' variants, of 0]
  obtain s where "Run_loop api a 20 0 0 =
     Some \<lparr>sent = photo_urls (takeWhile (newer (lastId a)) (feed_posts pages)),
           fetched = requests_from 20 0 (Suc (length (takeWhile (all_newer (lastId a)) pages))),
           seen = s, left = Break\<rparr>" by blast
  from Run_of_Break [OF this] show ?thesis using fw by simp
qed

theorem Run_incremental_witness:
  "lastId (agent_at 105) \<noteq> 0
   \<and> Fetch feed_two_pages (agent_at 105) 20 0 = Inr page_one
   \<and> Fetch feed_two_pages (agent_at 105) 20 20 = Inr page_two
   \<and> map Id (feed_posts [page_one, page_two]) = [110, 108, 106, 105, 103]
   \<and> (\<exists>r. Run feed_two_pages (agent_at 105) = Some r \<and> result r = Returned None
        \<and> enqueued r = [''https://img.example/a/110a.jpg'', ''https://img.example/a/110b.jpg'',
                         ''https://img.example/a/108.jpg'', ''https://img.example/a/106.jpg'']
        \<and> requests r = [(20, 0), (20, 20)])"
proof -
  have 1: "lastId (agent_at 105) \<noteq> 0" by (simp add: agent_at_def)
  have f0: "Fetch feed_two_pages (agent_at 105) 20 0 = Inr page_one"
    by (simp add: Fetch_def demo_defs)
  have f1: "Fetch feed_two_pages (agent_at 105) 20 20 = Inr page_two"
    by (simp add: Fetch_def demo_defs)
  have 2: "\<forall>k<length [page_one, page_two].
       Fetch feed_two_pages (agent_at 105) 20 (20 * int k) = Inr ([page_one, page_two] ! k)"
    using f0 f1 by (simp add: less_Suc_eq)
  have 3: "\<forall>pg\<in>set [page_one, page_two]. Posts (Response pg) \<noteq> []"
    by (simp add: demo_defs)
  have 4: "(\<forall>p\<in>set (feed_posts [page_one, page_two]). newer (lastId (agent_at 105)) p) \<longrightarrow>
         (\<exists>e. Fetch feed_two_pages (agent_at 105) 20 (20 * int (length [page_one, page_two])) = Inr e
              \<and> Posts (Response e) = [])"
    by (simp add: Fetch_def demo_defs)
  have 5: "sorted_wrt (\<lambda>p q. sint (Id q) < sint (Id p)) (feed_posts [page_one, page_two])"
    by (simp add: feed_posts_def demo_defs)
  have 6: "\<forall>p\<in>set (feed_posts [page_one, page_two]). newer (lastId (agent_at 105)) p \<longrightarrow>
         (\<forall>ph\<in>set (Photos p). AltSizes ph \<noteq> [])"
    by (simp add: feed_posts_def demo_defs)
  have ids: "map Id (feed_posts [page_one, page_two]) = [110, 108, 106, 105, 103]"
    by (simp add: feed_posts_def demo_defs)
  from Run_incremental [OF 1 2 3 4 5 6]
  obtain r where r: "Run feed_two_pages (agent_at 105) = Some r" "result r = Returned None"
    "enqueued r = photo_urls (filter (newer (lastId (agent_at 105))) (feed_posts [page_one, page_two]))"
    "requests r = requests_from 20 0 (Suc (length (takeWhile (all_newer (lastId (agent_at 105))) [page_one, page_two])))"
    by blast
  have e: "photo_urls (filter (newer (lastId (agent_at 105))) (feed_posts [page_one, page_two]))
     = [''https://img.example/a/110a.jpg'', ''https://img.example/a/110b.jpg'',
        ''https://img.example/a/108.jpg'', ''https://img.example/a/106.jpg'']"
    by (simp add: photo_urls_def canonical_url_def newer_def feed_posts_def demo_defs)
  have q: "requests_from 20 0 (Suc (length (takeWhile (all_newer (lastId (agent_at 105))) [page_one, page_two])))
     = [(20, 0), (20, 20)]"
    by (simp add: requests_from_def all_newer_def newer_def demo_defs upt_conv_Cons)
  from 1 f0 f1 ids r e q show ?thesis by simp
qed

text \<open>
  C4. With an absent watermark the scan sends no URL and makes one request, for the first
  page; when that page is fetched and has a post, the scan returns \<^verbatim>\<open>nil\<close> and the
  watermark afterwards is the identifier of the first post of the page.
\<close>

theorem Run_bootstrap:
  assumes absent: "lastId a = 0"
  shows "\<exists>r. Run api a = Some r \<and> enqueued r = [] \<and> requests r = [(20, 0)]
     \<and> (\<forall>pg. Fetch api a 20 0 = Inr pg \<longrightarrow> Posts (Response pg) \<noteq> [] \<longrightarrow>
            result r = Returned None \<and> lastId (agent r) = Id (hd (Posts (Response pg))))"
proof (cases "Fetch api a 20 0")
  case (Inl err)
  then show ?thesis by (simp add: Run_def Run_loop_error)
next
  case (Inr pg)
  show ?thesis
  proof (cases "Posts (Response pg) = []")
    case True
    with Inr show ?thesis by (simp add: Run_def Run_loop_empty_page)
  next
    case False
    from Run_loop_bootstrap [OF absent Inr False, of 0]
    have "Run api a = Some \<lparr>agent = (if Id (hd (Posts (Response pg))) \<noteq> 0 \<and> lastId a \<noteq> Id (hd (Posts (Response pg)))
                                      then a\<lparr>lastId := Id (hd (Posts (Response pg)))\<rparr> else a),
                     enqueued = [], requests = [(20, 0)], result = Returned None\<rparr>"
      by (simp add: Run_of_Break)
    with Inr absent show ?thesis by auto
  qed
qed

theorem Run_bootstrap_witness:
  "lastId (agent_at 0) = 0
   \<and> Fetch feed_two_pages (agent_at 0) 20 0 = Inr page_one
   \<and> Posts (Response page_one) \<noteq> []
   \<and> Run feed_two_pages (agent_at 0) =
       Some \<lparr>agent = agent_at 110, enqueued = [], requests = [(20, 0)], result = Returned None\<rparr>"
proof -
  have 1: "lastId (agent_at 0) = 0" by (simp add: agent_at_def)
  have f: "Fetch feed_two_pages (agent_at 0) 20 0 = Inr page_one"
    by (simp add: Fetch_def demo_defs)
  have n: "Posts (Response page_one) \<noteq> []" by (simp add: demo_defs)
  have h: "Id (hd (Posts (Response page_one))) = 110" by (simp add: demo_defs)
  from Run_bootstrap [OF 1, of feed_two_pages] f n h
  obtain r where r: "Run feed_two_pages (agent_at 0) = Some r" "enqueued r = []"
    "requests r = [(20, 0)]" "result r = Returned None" "lastId (agent r) = 110"
    by auto
  have "\<exists>x. agent r = (agent_at 0)\<lparr>lastId := x\<rparr>"
    using r(1) by (auto simp: Run_def split: bind_splits loop_exit.splits if_splits intro: exI [of _ 0] simp: agent_at_def)
  with r(5) have "agent r = agent_at 110" by (auto simp: agent_at_def)
  with r have "r = \<lparr>agent = agent_at 110, enqueued = [], requests = [(20, 0)], result = Returned None\<rparr>"
    by simp
  with 1 f n r(1) show ?thesis by simp
qed

text \<open>
  C9. When the first page fetched has no posts, the scan returns \<^verbatim>\<open>nil\<close> after that one
  request and leaves the agent, and so its watermark, absent or present, as it was.
\<close>

theorem Run_empty_first_page:
  assumes "Fetch api a 20 0 = Inr pg" and "Posts (Response pg) = []"
  shows "Run api a = Some \<lparr>agent = a, enqueued = [], requests = [(20, 0)], result = Returned None\<rparr>"
  using assms by (simp add: Run_def Run_loop_empty_page)

theorem Run_empty_first_page_witness:
  "Fetch feed_empty (agent_at 105) 20 0 = Inr (page [])
   \<and> Posts (Response (page [])) = []
   \<and> Run feed_empty (agent_at 105) =
       Some \<lparr>agent = agent_at 105, enqueued = [], requests = [(20, 0)], result = Returned None\<rparr>
   \<and> Run feed_empty (agent_at 0) =
       Some \<lparr>agent = agent_at 0, enqueued = [], requests = [(20, 0)], result = Returned None\<rparr>"
proof -
  have f: "Fetch feed_empty (agent_at W) 20 0 = Inr (page [])" for W
    by (simp add: Fetch_def demo_defs)
  have e: "Posts (Response (page [])) = []" by (simp add: page_def)
  from Run_empty_first_page [OF f e] f e show ?thesis by simp
qed

text \<open>
  C5. When the scan of an agent returns an error, the goroutine of the tick resets the
  agent: its watermark afterwards is absent, whatever it was before.
\<close>

theorem tick_resets_on_error:
  assumes "Run api a = Some r" and "result r = Returned (Some err)"
  shows "\<exists>r'. tick api a = Some r' \<and> lastId (agent r') = 0"
  using assms by (simp add: tick_def Reset_def)

theorem tick_resets_on_error_witness:
  "Run feed_down (agent_at 105) =
     Some \<lparr>agent = agent_at 105, enqueued = [], requests = [(20, 0)],
           result = Returned (Some (errorString ''connection refused''))\<rparr>
   \<and> (\<exists>r'. tick feed_down (agent_at 105) = Some r' \<and> lastId (agent r') = 0)"
proof -
  have f: "Fetch feed_down (agent_at 105) 20 0 = Inl (errorString ''connection refused'')"
    by (simp add: Fetch_def demo_defs)
  have r: "Run feed_down (agent_at 105) =
     Some \<lparr>agent = agent_at 105, enqueued = [], requests = [(20, 0)],
           result = Returned (Some (errorString ''connection refused''))\<rparr>"
    by (simp add: Run_def Run_loop_error [OF f])
  from tick_resets_on_error [OF r] r show ?thesis by simp
qed

text \<open>
  C6. A scan reaches the request after \<open>pages\<close> when these were fetched, are not empty
  and hold new posts only (with a present watermark, if there is any page before). When
  that request fails, the scan returns its error and the agent is unchanged, after the
  URLs of the pages before were sent.
\<close>

theorem Run_fetch_error:
  assumes reached: "pages \<noteq> [] \<longrightarrow> lastId a \<noteq> 0"
    and served: "\<forall>k<length pages. Fetch api a 20 (20 * int k) = Inr (pages ! k)"
    and nonempty: "\<forall>pg\<in>set pages. Posts (Response pg) \<noteq> []"
    and news: "\<forall>p\<in>set (feed_posts pages). newer (lastId a) p \<and> (\<forall>ph\<in>set (Photos p). AltSizes ph \<noteq> [])"
    and fails: "Fetch api a 20 (20 * int (length pages)) = Inl err"
  shows "Run api a = Some \<lparr>agent = a, enqueued = photo_urls (feed_posts pages),
                           requests = requests_from 20 0 (Suc (length pages)),
                           result = Returned (Some err)\<rparr>"
proof (cases "pages = []")
  case True
  with fails show ?thesis
    by (simp add: Run_def Run_loop_error photo_urls_def feed_posts_def requests_from_def)
next
  case False
  with reached have present: "lastId a \<noteq> 0" by simp
  from served have served': "\<forall>k<length pages. Fetch api a 20 (0 + 20 * int k) = Inr (pages ! k)"
    by simp
  have good: "\<forall>pg\<in>set pages. Posts (Response pg) \<noteq> [] \<and>
      (\<forall>p\<in>set (Posts (Response pg)). newer (lastId a) p \<and> (\<forall>ph\<in>set (Photos p). AltSizes ph \<noteq> []))"
    using nonempty news by (auto simp: feed_posts_def)
  have "Run_loop api a 20 0 0 =
      Some \<lparr>sent = photo_urls (feed_posts pages), fetched = requests_from 20 0 (Suc (length pages)),
            seen = first_seen 0 pages, left = ReturnErr err\<rparr>"
    by (subst Run_loop_new_pages [OF present served' good])
       (simp add: Run_loop_error [OF fails] requests_from_snoc)
  then show ?thesis by (simp add: Run_def)
qed

theorem Run_fetch_error_witness:
  "lastId (agent_at 105) \<noteq> 0
   \<and> Fetch feed_breaks (agent_at 105) 20 0 = Inr page_one
   \<and> Fetch feed_breaks (agent_at 105) 20 20 = Inl (errorString ''timeout'')
   \<and> Run feed_breaks (agent_at 105) =
       Some \<lparr>agent = agent_at 105,
             enqueued = [''https://img.example/a/110a.jpg'', ''https://img.example/a/110b.jpg'',
                         ''https://img.example/a/108.jpg''],
             requests = [(20, 0), (20, 20)],
             result = Returned (Some (errorString ''timeout''))\<rparr>"
proof -
  have 1: "[page_one] \<noteq> [] \<longrightarrow> lastId (agent_at 105) \<noteq> 0" by (simp add: agent_at_def)
  have f0: "Fetch feed_breaks (agent_at 105) 20 0 = Inr page_one"
    by (simp add: Fetch_def demo_defs)
  have 2: "\<forall>k<length [page_one]. Fetch feed_breaks (agent_at 105) 20 (20 * int k) = Inr ([page_one] ! k)"
    using f0 by simp
  have 3: "\<forall>pg\<in>set [page_one]. Posts (Response pg) \<noteq> []" by (simp add: demo_defs)
  have 4: "\<forall>p\<in>set (feed_posts [page_one]). newer (lastId (agent_at 105)) p
             \<and> (\<forall>ph\<in>set (Photos p). AltSizes ph \<noteq> [])"
    by (simp add: feed_posts_def newer_def demo_defs)
  have 5: "Fetch feed_breaks (agent_at 105) 20 (20 * int (length [page_one])) = Inl (errorString ''timeout'')"
    by (simp add: Fetch_def demo_defs)
  have e: "photo_urls (feed_posts [page_one]) =
      [''https://img.example/a/110a.jpg'', ''https://img.example/a/110b.jpg'',
       ''https://img.example/a/108.jpg'']"
    by (simp add: photo_urls_def canonical_url_def feed_posts_def demo_defs)
  have q: "requests_from 20 0 (Suc (length [page_one])) = [(20, 0), (20, 20)]"
    by (simp add: requests_from_def upt_conv_Cons)
  from Run_fetch_error [OF 1 2 3 4 5] 1 f0 5 e q show ?thesis by simp
qed

text \<open>
  C7. With a present watermark, when the scan comes to a post \<open>q\<close> with an identifier
  less than the watermark (the pages and the posts before it being new), it stops there:
  it has sent the URLs of the posts before \<open>q\<close> only, requests no further page and
  returns \<^verbatim>\<open>nil\<close>, so the tick does not reset the watermark.
\<close>

theorem Run_overshoot_stops:
  assumes present: "lastId a \<noteq> 0"
    and served: "\<forall>k<length before. Fetch api a 20 (20 * int k) = Inr (before ! k)"
    and served_last: "Fetch api a 20 (20 * int (length before)) = Inr pg"
    and nonempty: "\<forall>b\<in>set before. Posts (Response b) \<noteq> []"
    and shape: "Posts (Response pg) = pre @ q # suf"
    and news: "\<forall>p\<in>set (feed_posts before @ pre).
                 newer (lastId a) p \<and> (\<forall>ph\<in>set (Photos p). AltSizes ph \<noteq> [])"
    and older: "sint (Id q) < sint (lastId a)"
  shows "\<exists>r. Run api a = Some r \<and> result r = Returned None
     \<and> enqueued r = photo_urls (feed_posts before @ pre)
     \<and> requests r = requests_from 20 0 (Suc (length before))
     \<and> tick api a = Some r \<and> lastId (agent r) \<noteq> 0"
proof -
  from served have served': "\<forall>k<length before. Fetch api a 20 (0 + 20 * int k) = Inr (before ! k)"
    by simp
  have good: "\<forall>b\<in>set before. Posts (Response b) \<noteq> [] \<and>
      (\<forall>p\<in>set (Posts (Response b)). newer (lastId a) p \<and> (\<forall>ph\<in>set (Photos p). AltSizes ph \<noteq> []))"
    using nonempty news by (auto simp: feed_posts_def)
  have pre_good: "\<forall>p\<in>set pre. newer (lastId a) p \<and> (\<forall>ph\<in>set (Photos p). AltSizes ph \<noteq> [])"
    using news by auto
  have q_old: "\<not> newer (lastId a) q" using older by (simp add: newer_def)
  let ?s = "if first_seen 0 before = 0 then Id (hd (Posts (Response pg))) else first_seen 0 before"
  have "Run_loop api a 20 0 0 =
      Some \<lparr>sent = photo_urls (feed_posts before @ pre),
            fetched = requests_from 20 0 (Suc (length before)), seen = ?s, left = Break\<rparr>"
    by (subst Run_loop_new_pages [OF present served' good])
       (simp add: Run_loop_stop_page [OF present served_last shape pre_good q_old]
          requests_from_snoc photo_urls_def)
  from Run_of_Break [OF this] present show ?thesis
    by (auto simp: tick_def)
qed

theorem Run_overshoot_stops_witness:
  "lastId (agent_at 107) \<noteq> 0
   \<and> Fetch feed_two_pages (agent_at 107) 20 0 = Inr page_one
   \<and> Fetch feed_two_pages (agent_at 107) 20 20 = Inr page_two
   \<and> map Id (Posts (Response page_two)) = [106, 105, 103]
   \<and> sint (106 :: int64) < sint (lastId (agent_at 107))
   \<and> (\<exists>r. Run feed_two_pages (agent_at 107) = Some r \<and> result r = Returned None
        \<and> enqueued r = [''https://img.example/a/110a.jpg'', ''https://img.example/a/110b.jpg'',
                         ''https://img.example/a/108.jpg'']
        \<and> requests r = [(20, 0), (20, 20)]
        \<and> tick feed_two_pages (agent_at 107) = Some r \<and> lastId (agent r) \<noteq> 0)"
proof -
  let ?q = "\<lparr>Id = 106, Photos = [photo ''https://img.example/a/106.jpg'']\<rparr>"
  let ?suf = "[\<lparr>Id = 105, Photos = [photo ''https://img.example/a/105.jpg'']\<rparr>,
               \<lparr>Id = 103, Photos = [photo ''https://img.example/a/103.jpg'']\<rparr>]"
  have 1: "lastId (agent_at 107) \<noteq> 0" by (simp add: agent_at_def)
  have f0: "Fetch feed_two_pages (agent_at 107) 20 0 = Inr page_one"
    by (simp add: Fetch_def demo_defs)
  have f1: "Fetch feed_two_pages (agent_at 107) 20 20 = Inr page_two"
    by (simp add: Fetch_def demo_defs)
  have 2: "\<forall>k<length [page_one]. Fetch feed_two_pages (agent_at 107) 20 (20 * int k) = Inr ([page_one] ! k)"
    using f0 by simp
  have 3: "Fetch feed_two_pages (agent_at 107) 20 (20 * int (length [page_one])) = Inr page_two"
    using f1 by simp
  have 4: "\<forall>b\<in>set [page_one]. Posts (Response b) \<noteq> []" by (simp add: demo_defs)
  have 5: "Posts (Response page_two) = [] @ ?q # ?suf" by (simp add: demo_defs)
  have 6: "\<forall>p\<in>set (feed_posts [page_one] @ []).
             newer (lastId (agent_at 107)) p \<and> (\<forall>ph\<in>set (Photos p). AltSizes ph \<noteq> [])"
    by (simp add: feed_posts_def newer_def demo_defs)
  have 7: "sint (Id ?q) < sint (lastId (agent_at 107))" by (simp add: agent_at_def)
  have ids: "map Id (Posts (Response page_two)) = [106, 105, 103]" by (simp add: demo_defs)
  have e: "photo_urls (feed_posts [page_one] @ []) =
      [''https://img.example/a/110a.jpg'', ''https://img.example/a/110b.jpg'',
       ''https://img.example/a/108.jpg'']"
    by (simp add: photo_urls_def canonical_url_def feed_posts_def demo_defs)
  have q: "requests_from 20 0 (Suc (length [page_one])) = [(20, 0), (20, 20)]"
    by (simp add: requests_from_def upt_conv_Cons)
  from Run_overshoot_stops [OF 1 2 3 4 5 6 7] 1 f0 f1 ids 7 e q show ?thesis by simp
qed

text \<open>
  C3. A page with a photo without variants: \<open>Fetch\<close> returns the page as it is; with a
  present watermark below the post the scan panics at the index, after the URLs sent
  before; with an absent watermark the post is not looked at and the scan returns
  \<^verbatim>\<open>nil\<close>.
\<close>

theorem Run_empty_variants_panics:
  "Fetch feed_malformed (agent_at 105) 20 0 = Inr page_malformed
   \<and> Run feed_malformed (agent_at 105) =
       Some \<lparr>agent = agent_at 105, enqueued = [''https://img.example/a/110a.jpg''],
             requests = [(20, 0)], result = Panicked\<rparr>
   \<and> Run feed_malformed (agent_at 0) =
       Some \<lparr>agent = agent_at 110, enqueued = [], requests = [(20, 0)], result = Returned None\<rparr>"
  by (simp add: Run_def Run_loop.simps Fetch_def demo_defs)

section \<open>Saving a file\<close>

lemma strings_Split_no_sep: "sep \<notin> set cs \<Longrightarrow> strings_Split cs sep = [cs]"
  by (induction cs) auto

lemma strings_Split_nonempty: "strings_Split cs sep \<noteq> []"
  by (induction cs) (auto split: list.splits)

lemma strings_Split_sep: "sep \<in> set cs \<Longrightarrow> tl (strings_Split cs sep) \<noteq> []"
proof (induction cs)
  case Nil
  then show ?case by simp
next
  case (Cons c cs)
  show ?case
  proof (cases "c = sep")
    case True
    then show ?thesis by (simp add: strings_Split_nonempty)
  next
    case False
    with Cons show ?thesis by (auto split: list.splits)
  qed
qed

lemma last_strings_Split:
  "last (strings_Split cs sep) = rev (takeWhile (\<lambda>c. c \<noteq> sep) (rev cs))"
proof (induction cs)
  case Nil
  then show ?case by simp
next
  case (Cons c cs)
  show ?case
  proof (cases "sep \<in> set cs")
    case True
    then have t: "tl (strings_Split cs sep) \<noteq> []" by (rule strings_Split_sep)
    then obtain w v ws where w: "strings_Split cs sep = w # v # ws"
      by (cases "strings_Split cs sep"; cases "tl (strings_Split cs sep)") auto
    have "last (strings_Split (c # cs) sep) = last (strings_Split cs sep)"
      using w by simp
    moreover have "takeWhile (\<lambda>c. c \<noteq> sep) (rev (c # cs)) = takeWhile (\<lambda>c. c \<noteq> sep) (rev cs)"
      using True by (simp add: takeWhile_append1)
    ultimately show ?thesis using Cons by simp
  next
    case False
    then have s: "strings_Split cs sep = [cs]" by (rule strings_Split_no_sep)
    have tw: "takeWhile (\<lambda>c. c \<noteq> sep) (rev cs @ [c]) = rev cs @ takeWhile (\<lambda>c. c \<noteq> sep) [c]"
      using False by (intro takeWhile_append2) auto
    show ?thesis using s tw by auto
  qed
qed

lemma fileName_final_segment: "fileName s url = filepath_Join (Dir s) (final_segment url)"
  by (simp add: fileName_def final_segment_def Let_def last_strings_Split [symmetric]
      last_conv_nth strings_Split_nonempty)

lemma Save_exists:
  "fs (fileName s url) = Some nd \<Longrightarrow>
   Save w s fs url = \<lparr>files = fs, gets = [url],
      returned = (case http_Get w url of Inl err \<Rightarrow> Some err | Inr resp \<Rightarrow> None)\<rparr>"
  by (simp add: Save_def os_OpenFile_excl_def split: sum.splits)

lemma Save_preserves:
  "fs p = Some nd \<Longrightarrow> files (Save w s fs url) p = Some nd"
  by (auto simp: Save_def os_OpenFile_excl_def split: sum.splits option.splits prod.splits)

lemma fault_errno_not_exists: "Errno_Error (fault_errno f) \<noteq> ''file exists''"
  by (cases f) simp_all

lemma Save_created:
  assumes "fs (fileName s url) = None" and "returned (Save w s fs url) = None"
  shows "\<exists>resp. http_Get w url = Inr resp
           \<and> files (Save w s fs url) = fs(fileName s url \<mapsto> RegularFile (Body resp))"
  using assms
  by (auto simp: Save_def os_OpenFile_excl_def io_Copy_def fault_errno_not_exists
      split: sum.splits option.splits prod.splits if_splits)

lemma Save_success_exists:
  "returned (Save w s fs url) = None \<Longrightarrow> files (Save w s fs url) (fileName s url) \<noteq> None"
  by (auto simp: Save_def os_OpenFile_excl_def io_Copy_def fault_errno_not_exists
      split: sum.splits option.splits prod.splits if_splits)

lemma Saves_preserves: "fs p = Some nd \<Longrightarrow> Saves s calls fs p = Some nd"
  by (induction calls arbitrary: fs) (auto simp: Save_preserves)

lemma fileName_abc: "fileName saver_out ''https://img.example/a/abc.jpg'' = ''/out/abc.jpg''"
  by (simp add: fileName_def filepath_Join_def filepath_Clean_def saver_out_def)

lemma fileName_abc_other: "fileName saver_out ''https://gone.example/b/abc.jpg'' = ''/out/abc.jpg''"
  by (simp add: fileName_def filepath_Join_def filepath_Clean_def saver_out_def)

lemma Save_first_abc:
  "Save world_up saver_out no_files ''https://img.example/a/abc.jpg'' =
     \<lparr>files = no_files(''/out/abc.jpg'' \<mapsto> RegularFile photo_bytes),
      gets = [''https://img.example/a/abc.jpg''], returned = None\<rparr>"
  by (simp add: Save_def os_OpenFile_excl_def io_Copy_def fileName_abc world_up_def no_files_def)

lemma Save_first_abc_one_host:
  "Save world_one_host saver_out no_files ''https://img.example/a/abc.jpg'' =
     \<lparr>files = no_files(''/out/abc.jpg'' \<mapsto> RegularFile photo_bytes),
      gets = [''https://img.example/a/abc.jpg''], returned = None\<rparr>"
  by (simp add: Save_def os_OpenFile_excl_def io_Copy_def fileName_abc world_one_host_def no_files_def)

text \<open>
  C2, as the code has it. \<^verbatim>\<open>Save\<close> sends the GET before it opens the file. When the
  file derived from the URL exists, the call sends exactly one GET for the URL and changes
  no file; it returns \<^verbatim>\<open>nil\<close> when the GET succeeds and the error of the GET when it
  fails. So after a first call that created the file and returned \<^verbatim>\<open>nil\<close>, the file
  holds the body of the first download, and every second call for the same URL sends one
  GET again and leaves the file as it is.
\<close>

theorem Save_existing:
  "(\<forall>nd. fs (fileName s url) = Some nd \<longrightarrow>
      Save w s fs url = \<lparr>files = fs, gets = [url],
        returned = (case http_Get w url of Inl err \<Rightarrow> Some err | Inr resp \<Rightarrow> None)\<rparr>)
   \<and> (fs (fileName s url) = None \<and> returned (Save w s fs url) = None \<longrightarrow>
        (\<exists>resp. http_Get w url = Inr resp
           \<and> files (Save w s fs url) = fs(fileName s url \<mapsto> RegularFile (Body resp))
           \<and> (\<forall>w'. Save w' s (files (Save w s fs url)) url =
                 \<lparr>files = files (Save w s fs url), gets = [url],
                  returned = (case http_Get w' url of Inl err \<Rightarrow> Some err | Inr resp \<Rightarrow> None)\<rparr>)))"
proof (intro conjI allI impI)
  fix nd assume "fs (fileName s url) = Some nd"
  then show "Save w s fs url = \<lparr>files = fs, gets = [url],
        returned = (case http_Get w url of Inl err \<Rightarrow> Some err | Inr resp \<Rightarrow> None)\<rparr>"
    by (rule Save_exists)
next
  assume a: "fs (fileName s url) = None \<and> returned (Save w s fs url) = None"
  then obtain resp where r: "http_Get w url = Inr resp"
    "files (Save w s fs url) = fs(fileName s url \<mapsto> RegularFile (Body resp))"
    using Save_created by blast
  from r(2) have "files (Save w s fs url) (fileName s url) = Some (RegularFile (Body resp))"
    by simp
  then have "\<forall>w'. Save w' s (files (Save w s fs url)) url =
                 \<lparr>files = files (Save w s fs url), gets = [url],
                  returned = (case http_Get w' url of Inl err \<Rightarrow> Some err | Inr resp \<Rightarrow> None)\<rparr>"
    by (simp add: Save_exists)
  with r show "\<exists>resp. http_Get w url = Inr resp
           \<and> files (Save w s fs url) = fs(fileName s url \<mapsto> RegularFile (Body resp))
           \<and> (\<forall>w'. Save w' s (files (Save w s fs url)) url =
                 \<lparr>files = files (Save w s fs url), gets = [url],
                  returned = (case http_Get w' url of Inl err \<Rightarrow> Some err | Inr resp \<Rightarrow> None)\<rparr>)"
    by blast
qed

theorem Save_existing_witness:
  "one_file (fileName saver_out ''https://img.example/a/abc.jpg'') = Some (RegularFile [71, 73, 70])
   \<and> Save world_up saver_out one_file ''https://img.example/a/abc.jpg'' =
       \<lparr>files = one_file, gets = [''https://img.example/a/abc.jpg''], returned = None\<rparr>
   \<and> no_files (fileName saver_out ''https://img.example/a/abc.jpg'') = None
   \<and> returned (Save world_up saver_out no_files ''https://img.example/a/abc.jpg'') = None
   \<and> files (Save world_up saver_out no_files ''https://img.example/a/abc.jpg'') =
       no_files(''/out/abc.jpg'' \<mapsto> RegularFile photo_bytes)
   \<and> Save world_one_host saver_out
        (files (Save world_up saver_out no_files ''https://img.example/a/abc.jpg''))
        ''https://img.example/a/abc.jpg'' =
       \<lparr>files = files (Save world_up saver_out no_files ''https://img.example/a/abc.jpg''),
        gets = [''https://img.example/a/abc.jpg''], returned = None\<rparr>"
proof -
  let ?u = "''https://img.example/a/abc.jpg''"
  have 1: "one_file (fileName saver_out ?u) = Some (RegularFile [71, 73, 70])"
    by (simp add: fileName_abc one_file_def)
  have 2: "no_files (fileName saver_out ?u) = None" by (simp add: no_files_def)
  have 3: "returned (Save world_up saver_out no_files ?u) = None" by (simp add: Save_first_abc)
  have g: "http_Get world_up ?u = Inr \<lparr>Body = photo_bytes, ReadErr = None\<rparr>"
    by (simp add: world_up_def)
  have g': "http_Get world_one_host ?u = Inr \<lparr>Body = photo_bytes, ReadErr = None\<rparr>"
    by (simp add: world_one_host_def)
  from Save_existing [of one_file saver_out ?u world_up] 1 g
  have a: "Save world_up saver_out one_file ?u = \<lparr>files = one_file, gets = [?u], returned = None\<rparr>"
    by simp
  from Save_existing [of no_files saver_out ?u world_up] 2 3 g
  have b: "files (Save world_up saver_out no_files ?u) = no_files(''/out/abc.jpg'' \<mapsto> RegularFile photo_bytes)"
    and c: "\<forall>w'. Save w' saver_out (files (Save world_up saver_out no_files ?u)) ?u =
                 \<lparr>files = files (Save world_up saver_out no_files ?u), gets = [?u],
                  returned = (case http_Get w' ?u of Inl err \<Rightarrow> Some err | Inr resp \<Rightarrow> None)\<rparr>"
    by (auto simp: fileName_abc)
  from c g' have d: "Save world_one_host saver_out (files (Save world_up saver_out no_files ?u)) ?u =
       \<lparr>files = files (Save world_up saver_out no_files ?u), gets = [?u], returned = None\<rparr>"
    by simp
  from 1 a 2 3 b d show ?thesis by blast
qed

text \<open>
  The second of two calls for one URL does send a GET: C2 as stated, with no network
  request in the second call, fails here.
\<close>

theorem Save_again_requests_counterexample:
  "returned (Save world_up saver_out no_files ''https://img.example/a/abc.jpg'') = None
   \<and> files (Save world_up saver_out no_files ''https://img.example/a/abc.jpg'')
        (fileName saver_out ''https://img.example/a/abc.jpg'') = Some (RegularFile photo_bytes)
   \<and> gets (Save world_up saver_out
              (files (Save world_up saver_out no_files ''https://img.example/a/abc.jpg''))
              ''https://img.example/a/abc.jpg'') = [''https://img.example/a/abc.jpg'']"
  by (simp add: Save_first_abc fileName_abc)
     (simp add: Save_def world_up_def os_OpenFile_excl_def fileName_abc)

text \<open>
  C8. A name that exists keeps its content through every sequence of \<^verbatim>\<open>Save\<close> calls,
  whatever their URLs and whatever the outside does: opening it with
  \<^verbatim>\<open>O_CREATE|O_EXCL\<close> fails with \<^verbatim>\<open>EEXIST\<close>, and \<^verbatim>\<open>Save\<close> writes only to a file it
  created. The calls run one after the other.
\<close>

theorem Saves_never_overwrite:
  assumes "fs p = Some nd"
  shows "Saves s calls fs p = Some nd
     \<and> (\<forall>w. os_OpenFile_excl w fs p = Inl \<lparr>Op = ''open'', Path = p, Err = EEXIST\<rparr>)"
  using assms by (simp add: Saves_preserves os_OpenFile_excl_def)

theorem Saves_never_overwrite_witness:
  "one_file ''/out/abc.jpg'' = Some (RegularFile [71, 73, 70])
   \<and> fileName saver_out ''https://img.example/a/abc.jpg'' = ''/out/abc.jpg''
   \<and> fileName saver_out ''https://gone.example/b/abc.jpg'' = ''/out/abc.jpg''
   \<and> Saves saver_out [(world_up, ''https://img.example/a/abc.jpg''),
                       (world_one_host, ''https://gone.example/b/abc.jpg''),
                       (world_up, ''https://gone.example/b/abc.jpg'')] one_file ''/out/abc.jpg''
       = Some (RegularFile [71, 73, 70])"
proof -
  have 1: "one_file ''/out/abc.jpg'' = Some (RegularFile [71, 73, 70])"
    by (simp add: one_file_def)
  have "Saves saver_out [(world_up, ''https://img.example/a/abc.jpg''),
                         (world_one_host, ''https://gone.example/b/abc.jpg''),
                         (world_up, ''https://gone.example/b/abc.jpg'')] one_file ''/out/abc.jpg''
       = Some (RegularFile [71, 73, 70])"
    by (rule Saves_never_overwrite [where fs = one_file and p = "''/out/abc.jpg''", OF 1,
          THEN conjunct1])
  with 1 fileName_abc fileName_abc_other show ?thesis by blast
qed

text \<open>
  C10, as the code has it. Two URLs with the same final path segment derive the same file
  name. After a \<^verbatim>\<open>Save\<close> of the first that returned \<^verbatim>\<open>nil\<close>, a \<^verbatim>\<open>Save\<close> of the second
  changes no file; it returns \<^verbatim>\<open>nil\<close> when its own GET succeeds and the error of the GET
  otherwise. The file holds the body downloaded from the first URL when the first call
  created it.
\<close>

theorem Save_same_segment:
  assumes seg: "final_segment url1 = final_segment url2"
    and first: "returned (Save w1 s fs url1) = None"
  shows "fileName s url1 = fileName s url2
     \<and> files (Save w2 s (files (Save w1 s fs url1)) url2) = files (Save w1 s fs url1)
     \<and> returned (Save w2 s (files (Save w1 s fs url1)) url2) =
         (case http_Get w2 url2 of Inl err \<Rightarrow> Some err | Inr resp \<Rightarrow> None)
     \<and> (fs (fileName s url1) = None \<longrightarrow>
          (\<exists>resp. http_Get w1 url1 = Inr resp
             \<and> files (Save w2 s (files (Save w1 s fs url1)) url2) (fileName s url2)
                 = Some (RegularFile (Body resp))))"
proof -
  have same: "fileName s url1 = fileName s url2"
    using seg by (simp add: fileName_final_segment)
  from first obtain nd where nd: "files (Save w1 s fs url1) (fileName s url2) = Some nd"
    using Save_success_exists [of w1 s fs url1] same by auto
  have second: "Save w2 s (files (Save w1 s fs url1)) url2 =
     \<lparr>files = files (Save w1 s fs url1), gets = [url2],
      returned = (case http_Get w2 url2 of Inl err \<Rightarrow> Some err | Inr resp \<Rightarrow> None)\<rparr>"
    using nd by (rule Save_exists)
  have "fs (fileName s url1) = None \<longrightarrow>
          (\<exists>resp. http_Get w1 url1 = Inr resp
             \<and> files (Save w1 s fs url1) (fileName s url2) = Some (RegularFile (Body resp)))"
    using Save_created [of fs s url1 w1] first same by auto
  with same second show ?thesis by simp
qed

theorem Save_same_segment_witness:
  "final_segment ''https://img.example/a/abc.jpg'' = final_segment ''https://gone.example/b/abc.jpg''
   \<and> returned (Save world_up saver_out no_files ''https://img.example/a/abc.jpg'') = None
   \<and> no_files (fileName saver_out ''https://img.example/a/abc.jpg'') = None
   \<and> http_Get world_up ''https://img.example/a/abc.jpg'' = Inr \<lparr>Body = photo_bytes, ReadErr = None\<rparr>
   \<and> fileName saver_out ''https://img.example/a/abc.jpg'' = fileName saver_out ''https://gone.example/b/abc.jpg''
   \<and> returned (Save world_up saver_out
        (files (Save world_up saver_out no_files ''https://img.example/a/abc.jpg''))
        ''https://gone.example/b/abc.jpg'') = None
   \<and> files (Save world_up saver_out
        (files (Save world_up saver_out no_files ''https://img.example/a/abc.jpg''))
        ''https://gone.example/b/abc.jpg'') (fileName saver_out ''https://gone.example/b/abc.jpg'')
       = Some (RegularFile photo_bytes)"
proof -
  let ?u = "''https://img.example/a/abc.jpg''"
  let ?v = "''https://gone.example/b/abc.jpg''"
  have 1: "final_segment ?u = final_segment ?v" by (simp add: final_segment_def)
  have 2: "returned (Save world_up saver_out no_files ?u) = None" by (simp add: Save_first_abc)
  have 3: "no_files (fileName saver_out ?u) = None" by (simp add: no_files_def)
  have g: "http_Get world_up ?u = Inr \<lparr>Body = photo_bytes, ReadErr = None\<rparr>"
    "http_Get world_up ?v = Inr \<lparr>Body = photo_bytes, ReadErr = None\<rparr>"
    by (simp_all add: world_up_def)
  note T = Save_same_segment [OF 1 2, of world_up]
  have a: "fileName saver_out ?u = fileName saver_out ?v"
    by (rule T [THEN conjunct1])
  have b: "returned (Save world_up saver_out (files (Save world_up saver_out no_files ?u)) ?v) = None"
    using T [THEN conjunct2, THEN conjunct2, THEN conjunct1] g(2) by simp
  have c: "files (Save world_up saver_out (files (Save world_up saver_out no_files ?u)) ?v)
             (fileName saver_out ?v) = Some (RegularFile photo_bytes)"
    using T [THEN conjunct2, THEN conjunct2, THEN conjunct2, rule_format, OF 3] g(1) by auto
  from 1 2 3 g(1) a b c show ?thesis by blast
qed

text \<open>
  Where the second URL cannot be fetched, its \<^verbatim>\<open>Save\<close> returns the error of the GET
  although the file exists: C10 as stated, with success for the second URL, fails here.
\<close>

theorem Save_same_segment_counterexample:
  "''https://img.example/a/abc.jpg'' \<noteq> ''https://gone.example/b/abc.jpg''
   \<and> final_segment ''https://img.example/a/abc.jpg'' = final_segment ''https://gone.example/b/abc.jpg''
   \<and> returned (Save world_one_host saver_out no_files ''https://img.example/a/abc.jpg'') = None
   \<and> returned (Save world_one_host saver_out
        (files (Save world_one_host saver_out no_files ''https://img.example/a/abc.jpg''))
        ''https://gone.example/b/abc.jpg'') = Some (errorString ''no such host'')"
  by (simp add: Save_first_abc_one_host final_segment_def)
     (simp add: Save_def world_one_host_def)

end
